theory Spec2Isabelle
  imports Complex_Main
begin

section \<open>The group-closure helper: \<open>SemigroupTree\<close> of \<open>script/test_utils.py\<close>\<close>

text \<open>
  A decomposition is either a leaf node, holding an index into the generator list, or a
  binary node, holding two node indices (Python: an \<open>int\<close> or a 2-tuple of \<open>int\<close>).
\<close>

datatype decomp = Leaf nat | Binary nat nat

text \<open>The four attributes of the class.\<close>

record 'g semigroup_tree =
  generators :: "'g list"
  generator_indices :: "nat list"
  members :: "'g list"
  decomps :: "decomp list"

text \<open>
  The first loop of \<open>__init__\<close> (lines 37-47): \<open>for gen_gen_index, gen in enumerate(self.generators)\<close>.
  The local set \<open>all_seen\<close> is threaded beside the object.
\<close>

fun add_leaf_nodes ::
  "('g \<Rightarrow> 'h) \<Rightarrow> nat \<Rightarrow> 'g list \<Rightarrow> 'g semigroup_tree \<Rightarrow> 'h set \<Rightarrow> 'g semigroup_tree \<times> 'h set"
where
  "add_leaf_nodes make_hashable gen_gen_index [] t all_seen = (t, all_seen)"
| "add_leaf_nodes make_hashable gen_gen_index (gen # rest) t all_seen =
     (let gen_hashable = make_hashable gen in
      if gen_hashable \<in> all_seen
      then add_leaf_nodes make_hashable (Suc gen_gen_index) rest t all_seen
      else add_leaf_nodes make_hashable (Suc gen_gen_index) rest
             (t\<lparr>generator_indices := generator_indices t @ [length (members t)],
                members := members t @ [gen],
                decomps := decomps t @ [Leaf gen_gen_index]\<rparr>)
             (insert gen_hashable all_seen))"

text \<open>The body of the \<open>while\<close> loop (lines 56-62), for one value of \<open>rhs_node_index\<close>.\<close>

definition try_product ::
  "('g \<Rightarrow> 'g \<Rightarrow> 'g) \<Rightarrow> ('g \<Rightarrow> 'h) \<Rightarrow> nat \<Rightarrow> 'g \<Rightarrow> nat \<Rightarrow> 'g semigroup_tree \<Rightarrow> 'h set
     \<Rightarrow> 'g semigroup_tree \<times> 'h set"
where
  "try_product func make_hashable gen_node_index gen rhs_node_index t all_seen =
     (let product = func gen (members t ! rhs_node_index);
          product_hashable = make_hashable product
      in if product_hashable \<notin> all_seen
         then (t\<lparr>members := members t @ [product],
                  decomps := decomps t @ [Binary gen_node_index rhs_node_index]\<rparr>,
               insert product_hashable all_seen)
         else (t, all_seen))"

text \<open>
  The \<open>while rhs_node_index < len(self.members)\<close> loop (lines 54-63). The list grows while
  it is traversed, so the loop need not end: not returning is the value \<open>None\<close>.
\<close>

partial_function (option) apply_on_left ::
  "('g \<Rightarrow> 'g \<Rightarrow> 'g) \<Rightarrow> ('g \<Rightarrow> 'h) \<Rightarrow> nat \<Rightarrow> 'g \<Rightarrow> nat \<Rightarrow> 'g semigroup_tree \<Rightarrow> 'h set
     \<Rightarrow> ('g semigroup_tree \<times> 'h set) option"
where
  "apply_on_left func make_hashable gen_node_index gen rhs_node_index t all_seen =
     (if rhs_node_index < length (members t)
      then case try_product func make_hashable gen_node_index gen rhs_node_index t all_seen of
             (t', all_seen') \<Rightarrow>
               apply_on_left func make_hashable gen_node_index gen (Suc rhs_node_index) t' all_seen'
      else Some (t, all_seen))"

declare apply_on_left.simps [code]

text \<open>
  The second loop (line 49): \<open>for gen_node_index, gen in zip(self.generator_indices, self.generators)\<close>.
  Neither list changes during the loop, so the pairs are computed once.
\<close>

fun apply_generators ::
  "('g \<Rightarrow> 'g \<Rightarrow> 'g) \<Rightarrow> ('g \<Rightarrow> 'h) \<Rightarrow> (nat \<times> 'g) list \<Rightarrow> 'g semigroup_tree \<Rightarrow> 'h set
     \<Rightarrow> ('g semigroup_tree \<times> 'h set) option"
where
  "apply_generators func make_hashable [] t all_seen = Some (t, all_seen)"
| "apply_generators func make_hashable ((gen_node_index, gen) # rest) t all_seen =
     (case apply_on_left func make_hashable gen_node_index gen 0 t all_seen of
        None \<Rightarrow> None
      | Some (t', all_seen') \<Rightarrow> apply_generators func make_hashable rest t' all_seen')"

text \<open>\<open>SemigroupTree.__init__\<close> (lines 22-63); the result is the constructed object.\<close>

definition SemigroupTree_init ::
  "'g list \<Rightarrow> ('g \<Rightarrow> 'g \<Rightarrow> 'g) \<Rightarrow> ('g \<Rightarrow> 'h) \<Rightarrow> 'g semigroup_tree option"
where
  "SemigroupTree_init gens func make_hashable =
     (let t0 = \<lparr>generators = gens, generator_indices = [], members = [], decomps = []\<rparr> in
      if gens = [] then Some t0
      else case add_leaf_nodes make_hashable 0 (generators t0) t0 {} of
             (t1, all_seen) \<Rightarrow>
               map_option fst
                 (apply_generators func make_hashable
                    (zip (generator_indices t1) (generators t1)) t1 all_seen))"

text \<open>
  \<open>compute_homomorphism\<close> (lines 65-79). Python raises \<open>IndexError\<close> when a list is read
  outside its range; every read is a branch of the model.
\<close>

datatype py_error = IndexError

fun replay_decomps ::
  "'g list \<Rightarrow> (nat \<Rightarrow> 'g \<Rightarrow> 'h) \<Rightarrow> ('h \<Rightarrow> 'h \<Rightarrow> 'h) \<Rightarrow> decomp list \<Rightarrow> 'h list \<Rightarrow> py_error + 'h list"
where
  "replay_decomps gens get_generator compose [] out = Inr out"
| "replay_decomps gens get_generator compose (Binary a_index b_index # rest) out =
     (if a_index < length out \<and> b_index < length out
      then replay_decomps gens get_generator compose rest
             (out @ [compose (out ! a_index) (out ! b_index)])
      else Inl IndexError)"
| "replay_decomps gens get_generator compose (Leaf gen_index # rest) out =
     (if gen_index < length gens
      then replay_decomps gens get_generator compose rest
             (out @ [get_generator gen_index (gens ! gen_index)])
      else Inl IndexError)"

definition compute_homomorphism ::
  "'g semigroup_tree \<Rightarrow> (nat \<Rightarrow> 'g \<Rightarrow> 'h) \<Rightarrow> ('h \<Rightarrow> 'h \<Rightarrow> 'h) \<Rightarrow> py_error + 'h list"
where
  "compute_homomorphism t get_generator compose =
     replay_decomps (generators t) get_generator compose (decomps t) []"

section \<open>Invariant of the construction\<close>

text \<open>
  What holds of the object and of \<open>all_seen\<close> between any two steps of \<open>__init__\<close>.
\<close>

definition tree_inv :: "('g \<Rightarrow> 'h) \<Rightarrow> 'g semigroup_tree \<Rightarrow> 'h set \<Rightarrow> bool" where
  "tree_inv make_hashable t all_seen \<longleftrightarrow>
     length (decomps t) = length (members t) \<and>
     all_seen = make_hashable ` set (members t) \<and>
     distinct (map make_hashable (members t)) \<and>
     (\<forall>n \<in> set (generator_indices t). n < length (members t)) \<and>
     (\<forall>k i. k < length (decomps t) \<longrightarrow> decomps t ! k = Leaf i \<longrightarrow>
        i < length (generators t) \<and> members t ! k = generators t ! i) \<and>
     (\<forall>k l r. k < length (decomps t) \<longrightarrow> decomps t ! k = Binary l r \<longrightarrow> l < k \<and> r < k)"

section \<open>The semigroup generated by a set\<close>

text \<open>
  The closure of a set of generators under the operation: the least set that holds the
  generators and the product of any two of its elements.
\<close>

inductive_set semigroup_closure :: "('g \<Rightarrow> 'g \<Rightarrow> 'g) \<Rightarrow> 'g set \<Rightarrow> 'g set"
  for func :: "'g \<Rightarrow> 'g \<Rightarrow> 'g" and G :: "'g set"
where
  generator: "x \<in> G \<Longrightarrow> x \<in> semigroup_closure func G"
| product: "x \<in> semigroup_closure func G \<Longrightarrow> y \<in> semigroup_closure func G \<Longrightarrow>
            func x y \<in> semigroup_closure func G"

section \<open>Leaf nodes of a decomposition list\<close>

text \<open>The generator indices held by the leaf nodes, in stored order.\<close>

fun leaf_tags :: "decomp list \<Rightarrow> nat list" where
  "leaf_tags [] = []"
| "leaf_tags (Leaf gen_index # ds) = gen_index # leaf_tags ds"
| "leaf_tags (Binary a_index b_index # ds) = leaf_tags ds"

section \<open>Permutations as used by the tests\<close>

text \<open>
  \<open>compose_perm\<close> and \<open>make_perm_hashable\<close> of \<open>tests/test_symmetry.py\<close> (lines 13 and 16):
  \<open>compose_perm(a, b)\<close> is the numpy indexing \<open>b[a]\<close>, and the hashable form of an array is
  the tuple of its entries. On permutations of the same points every index is in range.
\<close>

definition compose_perm :: "nat list \<Rightarrow> nat list \<Rightarrow> nat list" where
  "compose_perm a b = map (\<lambda>i. b ! i) a"

definition make_perm_hashable :: "nat list \<Rightarrow> nat list" where
  "make_perm_hashable a = a"

section \<open>Preservation of the invariant\<close>

lemma try_product_fields:
  assumes "try_product func mh gi gen rhs t seen = (t', seen')"
  shows "generators t' = generators t" "generator_indices t' = generator_indices t"
    "length (members t) \<le> length (members t')"
  using assms by (auto simp: try_product_def Let_def split: if_splits)

lemma try_product_inv:
  assumes inv: "tree_inv mh t seen"
    and gi: "gi < length (members t)" and rhs: "rhs < length (members t)"
    and tp: "try_product func mh gi gen rhs t seen = (t', seen')"
  shows "tree_inv mh t' seen'"
proof (cases "mh (func gen (members t ! rhs)) \<in> seen")
  case True
  with tp have "t' = t" "seen' = seen" by (auto simp: try_product_def Let_def)
  with inv show ?thesis by simp
next
  case False
  let ?p = "func gen (members t ! rhs)"
  from False tp have t': "t' = t\<lparr>members := members t @ [?p], decomps := decomps t @ [Binary gi rhs]\<rparr>"
    and s': "seen' = insert (mh ?p) seen"
    by (auto simp: try_product_def Let_def)
  from inv have len: "length (decomps t) = length (members t)"
    and seen: "seen = mh ` set (members t)"
    and dist: "distinct (map mh (members t))"
    and gis: "\<forall>n \<in> set (generator_indices t). n < length (members t)"
    and leaves: "\<forall>k i. k < length (decomps t) \<longrightarrow> decomps t ! k = Leaf i \<longrightarrow>
        i < length (generators t) \<and> members t ! k = generators t ! i"
    and nodes: "\<forall>k l r. k < length (decomps t) \<longrightarrow> decomps t ! k = Binary l r \<longrightarrow> l < k \<and> r < k"
    by (simp_all add: tree_inv_def)
  have "\<forall>k i. k < length (decomps t') \<longrightarrow> decomps t' ! k = Leaf i \<longrightarrow>
        i < length (generators t') \<and> members t' ! k = generators t' ! i"
    using leaves len by (auto simp: t' nth_append less_Suc_eq)
  moreover have "\<forall>k l r. k < length (decomps t') \<longrightarrow> decomps t' ! k = Binary l r \<longrightarrow> l < k \<and> r < k"
    using nodes len gi rhs by (auto simp: t' nth_append less_Suc_eq)
  moreover from False seen dist have "distinct (map mh (members t'))" by (simp add: t')
  moreover from gis have "\<forall>n \<in> set (generator_indices t'). n < length (members t')"
    by (auto simp: t')
  moreover have "length (decomps t') = length (members t')" using len by (simp add: t')
  moreover have "seen' = mh ` set (members t')" using seen by (simp add: t' s')
  ultimately show ?thesis unfolding tree_inv_def by blast
qed

lemma apply_on_left_rule:
  assumes run: "apply_on_left func mh gi gen rhs t seen = Some (t', seen')"
    and init: "I rhs t seen"
    and step: "\<And>rhs t seen t2 seen2. I rhs t seen \<Longrightarrow> rhs < length (members t) \<Longrightarrow>
       try_product func mh gi gen rhs t seen = (t2, seen2) \<Longrightarrow> I (Suc rhs) t2 seen2"
  shows "\<exists>rhs'. I rhs' t' seen' \<and> length (members t') \<le> rhs'"
proof -
  define P where "P = (\<lambda>f m g ge r u s (y :: 'a semigroup_tree \<times> 'b set).
     f = func \<and> m = mh \<and> g = gi \<and> ge = gen \<and> I r u s \<longrightarrow>
        (\<exists>rhs'. I rhs' (fst y) (snd y) \<and> length (members (fst y)) \<le> rhs'))"
  have "P func mh gi gen rhs t seen (t', seen')"
  proof (rule apply_on_left.raw_induct[where P = P, OF _ run])
    fix rec f m g ge r u s y
    assume IH: "\<And>f m g ge r u s y. rec f m g ge r u s = Some y \<Longrightarrow> P f m g ge r u s y"
      and body: "(if r < length (members u)
           then case try_product f m g ge r u s of
                  (t', all_seen') \<Rightarrow> rec f m g ge (Suc r) t' all_seen'
           else Some (u, s)) = Some y"
    show "P f m g ge r u s y"
      unfolding P_def
    proof (intro impI, elim conjE)
      assume eqs: "f = func" "m = mh" "g = gi" "ge = gen" and I: "I r u s"
      show "\<exists>rhs'. I rhs' (fst y) (snd y) \<and> length (members (fst y)) \<le> rhs'"
      proof (cases "r < length (members u)")
        case True
        obtain u2 s2 where tp: "try_product f m g ge r u s = (u2, s2)"
          by (cases "try_product f m g ge r u s")
        with True body have "rec f m g ge (Suc r) u2 s2 = Some y" by simp
        then have "P f m g ge (Suc r) u2 s2 y" by (rule IH)
        moreover from step[OF I True] tp eqs have "I (Suc r) u2 s2" by simp
        ultimately show ?thesis using eqs by (simp add: P_def)
      next
        case False
        with body have "y = (u, s)" by simp
        with False I show ?thesis by (auto intro!: exI[of _ r])
      qed
    qed
  qed
  with init show ?thesis by (simp add: P_def)
qed

lemma add_leaf_nodes_fields:
  "add_leaf_nodes mh i rest t seen = (t', seen') \<Longrightarrow> generators t' = generators t"
  by (induction rest arbitrary: i t seen) (auto simp: Let_def split: if_splits)

lemma add_leaf_nodes_inv:
  assumes "tree_inv mh t seen" and "i + length rest \<le> length (generators t)"
    and "\<forall>k < length rest. rest ! k = generators t ! (i + k)"
    and "add_leaf_nodes mh i rest t seen = (t', seen')"
  shows "tree_inv mh t' seen'"
  using assms
proof (induction rest arbitrary: i t seen)
  case Nil
  then show ?case by simp
next
  case (Cons gen rest)
  from Cons.prems(3) have gen: "gen = generators t ! i" by auto
  from Cons.prems(3) have rest: "\<forall>k < length rest. rest ! k = generators t ! (Suc i + k)" by auto
  show ?case
  proof (cases "mh gen \<in> seen")
    case True
    with Cons.prems(4) have "add_leaf_nodes mh (Suc i) rest t seen = (t', seen')" by simp
    with Cons.IH[OF Cons.prems(1) _ rest] Cons.prems(2) show ?thesis by simp
  next
    case False
    let ?t = "t\<lparr>generator_indices := generator_indices t @ [length (members t)],
                members := members t @ [gen], decomps := decomps t @ [Leaf i]\<rparr>"
    from False Cons.prems(4)
    have run: "add_leaf_nodes mh (Suc i) rest ?t (insert (mh gen) seen) = (t', seen')" by simp
    from Cons.prems(1) have len: "length (decomps t) = length (members t)"
      and seen: "seen = mh ` set (members t)"
      and dist: "distinct (map mh (members t))"
      and gis: "\<forall>n \<in> set (generator_indices t). n < length (members t)"
      and leaves: "\<forall>k i. k < length (decomps t) \<longrightarrow> decomps t ! k = Leaf i \<longrightarrow>
          i < length (generators t) \<and> members t ! k = generators t ! i"
      and nodes: "\<forall>k l r. k < length (decomps t) \<longrightarrow> decomps t ! k = Binary l r \<longrightarrow> l < k \<and> r < k"
      by (simp_all add: tree_inv_def)
    have "\<forall>k j. k < length (decomps ?t) \<longrightarrow> decomps ?t ! k = Leaf j \<longrightarrow>
        j < length (generators ?t) \<and> members ?t ! k = generators ?t ! j"
      using leaves len gen Cons.prems(2) by (auto simp: nth_append less_Suc_eq)
    moreover have "\<forall>k l r. k < length (decomps ?t) \<longrightarrow> decomps ?t ! k = Binary l r \<longrightarrow> l < k \<and> r < k"
      using nodes len by (auto simp: nth_append less_Suc_eq)
    moreover from False seen dist have "distinct (map mh (members ?t))" by simp
    moreover from gis have "\<forall>n \<in> set (generator_indices ?t). n < length (members ?t)"
      by auto
    moreover have "length (decomps ?t) = length (members ?t)" using len by simp
    moreover have "insert (mh gen) seen = mh ` set (members ?t)" using seen by simp
    ultimately have inv: "tree_inv mh ?t (insert (mh gen) seen)" unfolding tree_inv_def by blast
    from Cons.prems(2) have "Suc i + length rest \<le> length (generators ?t)" by simp
    moreover from rest have "\<forall>k < length rest. rest ! k = generators ?t ! (Suc i + k)" by simp
    ultimately show ?thesis using Cons.IH[OF inv _ _ run] by blast
  qed
qed

lemma apply_on_left_inv:
  assumes run: "apply_on_left func mh gi gen rhs t seen = Some (t', seen')"
    and inv: "tree_inv mh t seen" and gi: "gi < length (members t)"
  shows "tree_inv mh t' seen' \<and> generators t' = generators t \<and>
         generator_indices t' = generator_indices t"
proof -
  let ?I = "\<lambda>(r::nat) u s. tree_inv mh u s \<and> gi < length (members u) \<and>
              generators u = generators t \<and> generator_indices u = generator_indices t"
  have "\<exists>rhs'. ?I rhs' t' seen' \<and> length (members t') \<le> rhs'"
  proof (rule apply_on_left_rule[where I = ?I, OF run])
    show "?I rhs t seen" using inv gi by simp
  next
    fix r u s u2 s2
    assume I: "?I r u s" and r: "r < length (members u)"
      and tp: "try_product func mh gi gen r u s = (u2, s2)"
    from I r tp have "tree_inv mh u2 s2" by (auto intro: try_product_inv)
    with try_product_fields[OF tp] I show "?I (Suc r) u2 s2" by auto
  qed
  then show ?thesis by blast
qed

lemma apply_on_left_mono:
  assumes run: "apply_on_left func mh gi gen rhs t seen = Some (t', seen')"
  shows "length (members t) \<le> length (members t')"
proof -
  have "\<exists>rhs'. length (members t) \<le> length (members t') \<and> length (members t') \<le> rhs'"
    by (rule apply_on_left_rule[where I = "\<lambda>r u s. length (members t) \<le> length (members u)", OF run])
      (auto dest: try_product_fields(3))
  then show ?thesis by blast
qed

lemma apply_generators_inv:
  assumes "apply_generators func mh ps t seen = Some (t', seen')"
    and "tree_inv mh t seen" and "\<forall>p \<in> set ps. fst p < length (members t)"
  shows "tree_inv mh t' seen' \<and> generators t' = generators t \<and>
         generator_indices t' = generator_indices t"
  using assms
proof (induction ps arbitrary: t seen)
  case Nil
  then show ?case by simp
next
  case (Cons p ps)
  obtain gi gen where p: "p = (gi, gen)" by (cases p)
  from Cons.prems(1) p obtain u s where
    one: "apply_on_left func mh gi gen 0 t seen = Some (u, s)"
    and more: "apply_generators func mh ps u s = Some (t', seen')"
    by (auto split: option.splits)
  from Cons.prems(3) p have gi: "gi < length (members t)" by simp
  from apply_on_left_inv[OF one Cons.prems(2) gi]
  have inv: "tree_inv mh u s" and g: "generators u = generators t"
    and gis: "generator_indices u = generator_indices t" by simp_all
  from apply_on_left_mono[OF one] Cons.prems(3)
  have "\<forall>p \<in> set ps. fst p < length (members u)" by auto
  from Cons.IH[OF more inv this] g gis show ?case by simp
qed

lemma init_inv:
  assumes "SemigroupTree_init gens func mh = Some t"
  shows "(\<exists>seen. tree_inv mh t seen) \<and> generators t = gens"
proof (cases "gens = []")
  case True
  let ?t0 = "\<lparr>generators = gens, generator_indices = [], members = [], decomps = []\<rparr>"
  from True assms have t: "t = ?t0" by (simp add: SemigroupTree_init_def)
  have "tree_inv mh ?t0 {}" by (simp add: tree_inv_def)
  with t show ?thesis by auto
next
  case False
  let ?t0 = "\<lparr>generators = gens, generator_indices = [], members = [], decomps = []\<rparr>"
  have inv0: "tree_inv mh ?t0 {}" by (simp add: tree_inv_def)
  obtain t1 s1 where leaves: "add_leaf_nodes mh 0 gens ?t0 {} = (t1, s1)"
    by (cases "add_leaf_nodes mh 0 gens ?t0 {}")
  from False assms leaves have
    "map_option fst (apply_generators func mh (zip (generator_indices t1) (generators t1)) t1 s1) = Some t"
    by (simp add: SemigroupTree_init_def)
  then obtain s where
    run: "apply_generators func mh (zip (generator_indices t1) (generators t1)) t1 s1 = Some (t, s)"
    by auto
  have inv1: "tree_inv mh t1 s1"
    by (rule add_leaf_nodes_inv[OF inv0 _ _ leaves]) simp_all
  have g1: "generators t1 = gens" using add_leaf_nodes_fields[OF leaves] by simp
  from inv1 have "\<forall>p \<in> set (zip (generator_indices t1) (generators t1)). fst p < length (members t1)"
    by (auto simp: tree_inv_def dest: set_zip_leftD)
  from apply_generators_inv[OF run inv1 this] g1
  show ?thesis by auto
qed

lemma replay_decomps_ok:
  assumes "\<forall>k i. k < length ds \<longrightarrow> ds ! k = Leaf i \<longrightarrow> i < length gens"
    and "\<forall>k l r. k < length ds \<longrightarrow> ds ! k = Binary l r \<longrightarrow> l < length out + k \<and> r < length out + k"
  shows "\<exists>res. replay_decomps gens get_generator compose ds out = Inr res \<and>
               length res = length out + length ds"
  using assms
proof (induction ds arbitrary: out)
  case Nil
  then show ?case by simp
next
  case (Cons d ds)
  have leaves: "\<forall>k i. k < length ds \<longrightarrow> ds ! k = Leaf i \<longrightarrow> i < length gens"
    using Cons.prems(1) by (metis Suc_less_eq length_Cons nth_Cons_Suc)
  show ?case
  proof (cases d)
    case (Leaf i)
    with Cons.prems(1) have i: "i < length gens" by (metis length_Cons nth_Cons_0 zero_less_Suc)
    let ?out = "out @ [get_generator i (gens ! i)]"
    have "\<forall>k l r. k < length ds \<longrightarrow> ds ! k = Binary l r \<longrightarrow>
            l < length ?out + k \<and> r < length ?out + k"
    proof (intro allI impI)
      fix k l r assume "k < length ds" "ds ! k = Binary l r"
      then have "Suc k < length (d # ds)" "(d # ds) ! Suc k = Binary l r" by simp_all
      with Cons.prems(2) have "l < length out + Suc k \<and> r < length out + Suc k" by blast
      then show "l < length ?out + k \<and> r < length ?out + k" by simp
    qed
    from Cons.IH[OF leaves this] i Leaf show ?thesis by auto
  next
    case (Binary a b)
    with Cons.prems(2) have ab: "a < length out \<and> b < length out"
      by (metis add.right_neutral length_Cons nth_Cons_0 zero_less_Suc)
    let ?out = "out @ [compose (out ! a) (out ! b)]"
    have "\<forall>k l r. k < length ds \<longrightarrow> ds ! k = Binary l r \<longrightarrow>
            l < length ?out + k \<and> r < length ?out + k"
    proof (intro allI impI)
      fix k l r assume "k < length ds" "ds ! k = Binary l r"
      then have "Suc k < length (d # ds)" "(d # ds) ! Suc k = Binary l r" by simp_all
      with Cons.prems(2) have "l < length out + Suc k \<and> r < length out + Suc k" by blast
      then show "l < length ?out + k \<and> r < length ?out + k" by simp
    qed
    from Cons.IH[OF leaves this] ab Binary show ?thesis by auto
  qed
qed

text \<open>
  A run on concrete data: the integers modulo 8 under addition, generated by 4, 4, 2, 1
  (the generator 4 is given twice), with the default \<open>make_hashable\<close>, the identity.
\<close>

lemma init_mod8_example:
  "SemigroupTree_init [4, 4, 2, 1 :: nat] (\<lambda>a b. (a + b) mod 8) (\<lambda>x. x) =
     Some \<lparr>generators = [4, 4, 2, 1], generator_indices = [0, 1, 2],
       members = [4, 2, 1, 0, 6, 5, 3, 7],
       decomps = [Leaf 0, Leaf 2, Leaf 3, Binary 0 0, Binary 0 1, Binary 0 2,
                  Binary 2 2, Binary 2 5]\<rparr>"
  by code_simp

section \<open>Termination of the closure loops\<close>

lemma apply_on_left_terminates:
  assumes fin: "finite (mh ` C)" and gen: "\<forall>x \<in> C. func gen x \<in> C"
  shows "seen \<subseteq> mh ` C \<Longrightarrow> set (members t) \<subseteq> C \<Longrightarrow>
         \<exists>r. apply_on_left func mh gi gen rhs t seen = Some r"
proof (induction "card (mh ` C - seen) + (length (members t) - rhs)"
        arbitrary: rhs t seen rule: less_induct)
  case less
  show ?case
  proof (cases "rhs < length (members t)")
    case False
    then show ?thesis by (subst apply_on_left.simps) simp
  next
    case True
    let ?p = "func gen (members t ! rhs)"
    from True less.prems(2) have "members t ! rhs \<in> C" by (auto simp: subset_iff)
    with gen have pC: "?p \<in> C" by blast
    show ?thesis
    proof (cases "mh ?p \<in> seen")
      case seen: True
      then have tp: "try_product func mh gi gen rhs t seen = (t, seen)"
        by (simp add: try_product_def)
      from True have "card (mh ` C - seen) + (length (members t) - Suc rhs)
          < card (mh ` C - seen) + (length (members t) - rhs)" by simp
      from less.hyps[OF this less.prems]
      obtain r where "apply_on_left func mh gi gen (Suc rhs) t seen = Some r" by blast
      with True tp show ?thesis by (subst apply_on_left.simps) simp
    next
      case new: False
      let ?t = "t\<lparr>members := members t @ [?p], decomps := decomps t @ [Binary gi rhs]\<rparr>"
      let ?s = "insert (mh ?p) seen"
      from new have tp: "try_product func mh gi gen rhs t seen = (?t, ?s)"
        by (simp add: try_product_def Let_def)
      from pC new have el: "mh ?p \<in> mh ` C - seen" by blast
      from fin have "finite (mh ` C - seen)" by simp
      then have "card ((mh ` C - seen) - {mh ?p}) < card (mh ` C - seen)"
        using el by (rule card_Diff1_less)
      moreover have "mh ` C - ?s = (mh ` C - seen) - {mh ?p}" by blast
      ultimately have "card (mh ` C - ?s) < card (mh ` C - seen)" by simp
      moreover from True have "length (members ?t) - Suc rhs = length (members t) - rhs" by simp
      ultimately have "card (mh ` C - ?s) + (length (members ?t) - Suc rhs)
          < card (mh ` C - seen) + (length (members t) - rhs)" by simp
      moreover from pC less.prems(1) have "?s \<subseteq> mh ` C" by blast
      moreover from pC less.prems(2) have "set (members ?t) \<subseteq> C" by simp
      ultimately obtain r where "apply_on_left func mh gi gen (Suc rhs) ?t ?s = Some r"
        using less.hyps by blast
      with True tp show ?thesis by (subst apply_on_left.simps) simp
    qed
  qed
qed

lemma try_product_members_closed:
  assumes "try_product func mh gi gen rhs t seen = (t', seen')"
    and "rhs < length (members t)" and "set (members t) \<subseteq> C" and "\<forall>x \<in> C. func gen x \<in> C"
  shows "set (members t') \<subseteq> C"
  using assms by (auto simp: try_product_def Let_def subset_iff split: if_splits)

lemma apply_on_left_members_closed:
  assumes run: "apply_on_left func mh gi gen rhs t seen = Some (t', seen')"
    and mem: "set (members t) \<subseteq> C" and gen: "\<forall>x \<in> C. func gen x \<in> C"
  shows "set (members t') \<subseteq> C"
proof -
  have "\<exists>rhs'. set (members t') \<subseteq> C \<and> length (members t') \<le> rhs'"
  proof (rule apply_on_left_rule[where I = "\<lambda>r u s. set (members u) \<subseteq> C", OF run mem])
    fix r u s u2 s2
    assume "set (members u) \<subseteq> C" "r < length (members u)"
      "try_product func mh gi gen r u s = (u2, s2)"
    with gen show "set (members u2) \<subseteq> C"
      by (auto simp: try_product_def Let_def subset_iff split: if_splits)
  qed
  then show ?thesis by blast
qed

lemma apply_generators_terminates:
  assumes fin: "finite (mh ` C)"
  shows "\<forall>p \<in> set ps. fst p < length (members t) \<and> (\<forall>x \<in> C. func (snd p) x \<in> C) \<Longrightarrow>
         tree_inv mh t seen \<Longrightarrow> set (members t) \<subseteq> C \<Longrightarrow>
         \<exists>r. apply_generators func mh ps t seen = Some r"
proof (induction ps arbitrary: t seen)
  case Nil
  show ?case by simp
next
  case (Cons p ps)
  obtain gi gen where p: "p = (gi, gen)" by (cases p)
  with Cons.prems(1) have gi: "gi < length (members t)" and gen: "\<forall>x \<in> C. func gen x \<in> C"
    by simp_all
  from Cons.prems(2) have "seen = mh ` set (members t)" by (simp add: tree_inv_def)
  with Cons.prems(3) have sub: "seen \<subseteq> mh ` C" by blast
  have "\<exists>r. apply_on_left func mh gi gen 0 t seen = Some r"
    using fin gen sub Cons.prems(3) by (rule apply_on_left_terminates)
  then obtain u s where one: "apply_on_left func mh gi gen 0 t seen = Some (u, s)" by force
  from apply_on_left_inv[OF one Cons.prems(2) gi] have inv: "tree_inv mh u s" by simp
  from apply_on_left_members_closed[OF one Cons.prems(3) gen] have mem: "set (members u) \<subseteq> C" .
  from apply_on_left_mono[OF one] Cons.prems(1)
  have "\<forall>p \<in> set ps. fst p < length (members u) \<and> (\<forall>x \<in> C. func (snd p) x \<in> C)" by auto
  from Cons.IH[OF this inv mem] one p show ?case by simp
qed

lemma add_leaf_nodes_members:
  "add_leaf_nodes mh i rest t seen = (t', seen') \<Longrightarrow>
   set (members t') \<subseteq> set (members t) \<union> set rest"
proof (induction rest arbitrary: i t seen)
  case Nil
  then show ?case by simp
next
  case (Cons gen rest)
  show ?case
  proof (cases "mh gen \<in> seen")
    case True
    with Cons.prems have "add_leaf_nodes mh (Suc i) rest t seen = (t', seen')" by simp
    from Cons.IH[OF this] show ?thesis by auto
  next
    case False
    let ?t = "t\<lparr>generator_indices := generator_indices t @ [length (members t)],
                members := members t @ [gen], decomps := decomps t @ [Leaf i]\<rparr>"
    from False Cons.prems
    have "add_leaf_nodes mh (Suc i) rest ?t (insert (mh gen) seen) = (t', seen')" by simp
    from Cons.IH[OF this] show ?thesis by auto
  qed
qed

lemma mod8_closure: "semigroup_closure (\<lambda>a b. (a + b) mod 8) (set [4, 4, 2, 1 :: nat]) \<subseteq> {..<8}"
proof
  fix x assume "x \<in> semigroup_closure (\<lambda>a b. (a + b) mod 8) (set [4, 4, 2, 1 :: nat])"
  then show "x \<in> {..<8}" by induction auto
qed

section \<open>Leaf nodes\<close>

lemma leaf_tags_append: "leaf_tags (xs @ ys) = leaf_tags xs @ leaf_tags ys"
  by (induction xs rule: leaf_tags.induct) simp_all

lemma leaf_tags_set: "i \<in> set (leaf_tags ds) \<longleftrightarrow> Leaf i \<in> set ds"
  by (induction ds rule: leaf_tags.induct) auto

lemma add_leaf_nodes_leaf_tags:
  assumes "add_leaf_nodes mh (length pre) rest t seen = (t', seen')"
    and "seen = mh ` set pre"
  shows "leaf_tags (decomps t') = leaf_tags (decomps t) @
           [k \<leftarrow> [length pre..<length pre + length rest].
              mh ((pre @ rest) ! k) \<notin> mh ` set (take k (pre @ rest))]"
  using assms
proof (induction rest arbitrary: pre t seen)
  case Nil
  then show ?case by simp
next
  case (Cons gen rest)
  have upt: "[length pre..<length pre + length (gen # rest)]
      = length pre # [length (pre @ [gen])..<length (pre @ [gen]) + length rest]"
    by (subst upt_rec) simp
  have app: "pre @ gen # rest = (pre @ [gen]) @ rest" by simp
  show ?case
  proof (cases "mh gen \<in> seen")
    case True
    with Cons.prems(1)
    have run: "add_leaf_nodes mh (length (pre @ [gen])) rest t seen = (t', seen')" by simp
    from True Cons.prems(2) have "seen = mh ` set (pre @ [gen])" by auto
    from Cons.IH[OF run this] True Cons.prems(2) show ?thesis
      unfolding upt app by (simp add: nth_append)
  next
    case False
    let ?t = "t\<lparr>generator_indices := generator_indices t @ [length (members t)],
                members := members t @ [gen], decomps := decomps t @ [Leaf (length pre)]\<rparr>"
    from False Cons.prems(1)
    have run: "add_leaf_nodes mh (length (pre @ [gen])) rest ?t (insert (mh gen) seen) = (t', seen')"
      by simp
    from Cons.prems(2) have "insert (mh gen) seen = mh ` set (pre @ [gen])" by auto
    from Cons.IH[OF run this] False Cons.prems(2) show ?thesis
      unfolding upt app by (simp add: nth_append leaf_tags_append)
  qed
qed

lemma apply_on_left_leaf_tags:
  assumes run: "apply_on_left func mh gi gen rhs t seen = Some (t', seen')"
  shows "leaf_tags (decomps t') = leaf_tags (decomps t)"
proof -
  have "\<exists>rhs'. leaf_tags (decomps t') = leaf_tags (decomps t) \<and> length (members t') \<le> rhs'"
  proof (rule apply_on_left_rule[where I = "\<lambda>r u s. leaf_tags (decomps u) = leaf_tags (decomps t)", OF run])
    show "leaf_tags (decomps t) = leaf_tags (decomps t)" ..
  next
    fix r u s u2 s2
    assume "leaf_tags (decomps u) = leaf_tags (decomps t)"
      "try_product func mh gi gen r u s = (u2, s2)"
    then show "leaf_tags (decomps u2) = leaf_tags (decomps t)"
      by (auto simp: try_product_def Let_def leaf_tags_append split: if_splits)
  qed
  then show ?thesis by blast
qed

lemma apply_generators_leaf_tags:
  "apply_generators func mh ps t seen = Some (t', seen') \<Longrightarrow>
   leaf_tags (decomps t') = leaf_tags (decomps t)"
proof (induction ps arbitrary: t seen)
  case Nil
  then show ?case by simp
next
  case (Cons p ps)
  obtain gi gen where p: "p = (gi, gen)" by (cases p)
  from Cons.prems p obtain u s where
    one: "apply_on_left func mh gi gen 0 t seen = Some (u, s)"
    and more: "apply_generators func mh ps u s = Some (t', seen')"
    by (auto split: option.splits)
  from Cons.IH[OF more] apply_on_left_leaf_tags[OF one] show ?case by simp
qed

lemma init_leaf_tags:
  assumes "SemigroupTree_init gens func mh = Some t"
  shows "leaf_tags (decomps t) = [k \<leftarrow> [0..<length gens]. mh (gens ! k) \<notin> mh ` set (take k gens)]"
proof (cases "gens = []")
  case True
  with assms show ?thesis by (auto simp: SemigroupTree_init_def)
next
  case False
  let ?t0 = "\<lparr>generators = gens, generator_indices = [], members = [], decomps = []\<rparr>"
  obtain t1 s1 where leaves: "add_leaf_nodes mh 0 gens ?t0 {} = (t1, s1)"
    by (cases "add_leaf_nodes mh 0 gens ?t0 {}")
  from False assms leaves have
    "map_option fst (apply_generators func mh (zip (generator_indices t1) (generators t1)) t1 s1) = Some t"
    by (simp add: SemigroupTree_init_def)
  then obtain s where
    run: "apply_generators func mh (zip (generator_indices t1) (generators t1)) t1 s1 = Some (t, s)"
    by auto
  from leaves have "add_leaf_nodes mh (length ([] :: 'a list)) gens ?t0 {} = (t1, s1)" by simp
  from add_leaf_nodes_leaf_tags[OF this] apply_generators_leaf_tags[OF run]
  show ?thesis by simp
qed

lemma first_occurrences_distinct:
  "distinct (map (\<lambda>k. mh (gens ! k))
     [k \<leftarrow> [0..<length gens]. mh (gens ! k) \<notin> mh ` set (take k gens)])"
proof -
  let ?L = "[k \<leftarrow> [0..<length gens]. mh (gens ! k) \<notin> mh ` set (take k gens)]"
  have "inj_on (\<lambda>k. mh (gens ! k)) (set ?L)"
  proof (rule inj_onI)
    fix a b assume a: "a \<in> set ?L" and b: "b \<in> set ?L" and eq: "mh (gens ! a) = mh (gens ! b)"
    have *: False if "x < y" "y < length gens" "mh (gens ! x) = mh (gens ! y)"
      "mh (gens ! y) \<notin> mh ` set (take y gens)" for x y
    proof -
      from that(1,2) have "gens ! x \<in> set (take y gens)"
        by (metis in_set_conv_nth length_take min_less_iff_conj nth_take order_less_trans)
      with that(3,4) show False by (metis imageI)
    qed
    show "a = b"
    proof (cases a b rule: linorder_cases)
      case less
      with *[of a b] a b eq show ?thesis by auto
    next
      case greater
      with *[of b a] a b eq show ?thesis by auto
    qed simp
  qed
  then show ?thesis by (simp add: distinct_map)
qed

lemma first_occurrences_cover:
  "(\<lambda>k. mh (gens ! k)) ` set [k \<leftarrow> [0..<length gens]. mh (gens ! k) \<notin> mh ` set (take k gens)]
     = mh ` set gens"
proof
  show "(\<lambda>k. mh (gens ! k)) ` set [k \<leftarrow> [0..<length gens]. mh (gens ! k) \<notin> mh ` set (take k gens)]
          \<subseteq> mh ` set gens" by auto
next
  show "mh ` set gens
          \<subseteq> (\<lambda>k. mh (gens ! k)) ` set [k \<leftarrow> [0..<length gens]. mh (gens ! k) \<notin> mh ` set (take k gens)]"
  proof
    fix h assume "h \<in> mh ` set gens"
    then obtain n where n: "n < length gens" "mh (gens ! n) = h"
      by (auto simp: in_set_conv_nth)
    define k where "k = (LEAST m. m < length gens \<and> mh (gens ! m) = h)"
    from n have k: "k < length gens \<and> mh (gens ! k) = h"
      unfolding k_def by (intro LeastI[where P = "\<lambda>m. m < length gens \<and> mh (gens ! m) = h"]) simp
    have "mh (gens ! k) \<notin> mh ` set (take k gens)"
    proof
      assume "mh (gens ! k) \<in> mh ` set (take k gens)"
      then obtain m where m: "m < k" "mh (gens ! m) = mh (gens ! k)"
        using k by (auto simp: in_set_conv_nth)
      with k have "m < length gens \<and> mh (gens ! m) = h" by simp
      then have "k \<le> m" unfolding k_def by (rule Least_le)
      with m show False by simp
    qed
    with k show "h \<in> (\<lambda>k. mh (gens ! k)) ` set [k \<leftarrow> [0..<length gens]. mh (gens ! k) \<notin> mh ` set (take k gens)]"
      by (auto intro!: image_eqI[where x = k])
  qed
qed

section \<open>A run that never ends\<close>

lemma apply_on_left_diverges:
  assumes run: "apply_on_left (+) (\<lambda>x. x) gi (1 :: nat) rhs t seen = Some y"
  shows "\<not> (Suc rhs = length (members t) \<and> members t ! rhs = length (members t) \<and>
            (\<forall>x \<in> seen. x \<le> length (members t)))"
proof -
  define J where "J = (\<lambda>(r :: nat) (u :: nat semigroup_tree) (s :: nat set).
     Suc r = length (members u) \<and> members u ! r = length (members u) \<and>
     (\<forall>x \<in> s. x \<le> length (members u)))"
  define P where "P = (\<lambda>(f :: nat \<Rightarrow> nat \<Rightarrow> nat) (m :: nat \<Rightarrow> nat) (g :: nat) (ge :: nat) r u s
       (y :: nat semigroup_tree \<times> nat set).
     f = (+) \<and> m = (\<lambda>x. x) \<and> ge = 1 \<longrightarrow> \<not> J r u s)"
  have "P (+) (\<lambda>x. x) gi 1 rhs t seen y"
  proof (rule apply_on_left.raw_induct[where P = P, OF _ run])
    fix rec f m g ge r u s y
    assume IH: "\<And>f m g ge r u s y. rec f m g ge r u s = Some y \<Longrightarrow> P f m g ge r u s y"
      and body: "(if r < length (members u)
           then case try_product f m g ge r u s of
                  (t', all_seen') \<Rightarrow> rec f m g ge (Suc r) t' all_seen'
           else Some (u, s)) = Some y"
    show "P f m g ge r u s y"
      unfolding P_def
    proof (intro impI notI, elim conjE)
      assume eqs: "f = (+)" "m = (\<lambda>x. x)" "ge = 1" and J: "J r u s"
      let ?L = "length (members u)"
      let ?u = "u\<lparr>members := members u @ [Suc ?L], decomps := decomps u @ [Binary g r]\<rparr>"
      from J have r: "r < ?L" and last: "members u ! r = ?L" and bound: "\<forall>x \<in> s. x \<le> ?L"
        by (auto simp: J_def)
      from bound have "Suc ?L \<notin> s" by auto
      with last eqs have tp: "try_product f m g ge r u s = (?u, insert (Suc ?L) s)"
        by (simp add: try_product_def Let_def)
      with r body have "rec f m g ge (Suc r) ?u (insert (Suc ?L) s) = Some y" by simp
      from IH[OF this] eqs have "\<not> J (Suc r) ?u (insert (Suc ?L) s)" by (simp add: P_def)
      moreover from J bound have "J (Suc r) ?u (insert (Suc ?L) s)"
        by (auto simp: J_def nth_append)
      ultimately show False ..
    qed
  qed
  then show ?thesis by (simp add: P_def J_def)
qed

section \<open>The symmetries of a square\<close>

text \<open>
  Two reflections of a square with corners 0, 1, 2, 3: the diagonal reflection that swaps
  corners 1 and 3, and the reflection that swaps 0 with 1 and 2 with 3. They generate the
  dihedral group of order 8.
\<close>

lemma compose_perm_assoc:
  "\<forall>i \<in> set a. i < length b \<Longrightarrow>
   compose_perm (compose_perm a b) c = compose_perm a (compose_perm b c)"
  by (simp add: compose_perm_def)

lemma init_square_example:
  "SemigroupTree_init [[0, 3, 2, 1], [1, 0, 3, 2]] compose_perm make_perm_hashable =
     Some \<lparr>generators = [[0, 3, 2, 1], [1, 0, 3, 2]], generator_indices = [0, 1],
       members = [[0, 3, 2, 1], [1, 0, 3, 2], [0, 1, 2, 3], [1, 2, 3, 0],
                  [3, 0, 1, 2], [2, 1, 0, 3]],
       decomps = [Leaf 0, Leaf 1, Binary 0 0, Binary 0 1, Binary 1 0, Binary 1 3]\<rparr>"
  by code_simp

section \<open>The empty generator sequence\<close>

text \<open>
  Claim C9. For the empty generator sequence, whatever the operation and the
  canonicalization function, \<open>__init__\<close> returns an object whose members, decomps and
  generator\_indices lists are all empty.
\<close>

theorem init_empty_generators:
  "SemigroupTree_init [] func make_hashable =
     Some \<lparr>generators = [], generator_indices = [], members = [], decomps = []\<rparr>"
  by (simp add: SemigroupTree_init_def)


section \<open>Decompositions refer to earlier members\<close>

text \<open>
  Claim C6. In every constructed \<open>SemigroupTree\<close>, a binary decomposition stored at
  position \<open>k\<close> has both its indices below \<open>k\<close>. Hence \<open>compute_homomorphism\<close>,
  which handles the decompositions in stored order, reads only output slots it has already
  filled: it raises no \<open>IndexError\<close>, whatever \<open>get_generator\<close> and \<open>compose\<close> are,
  and returns one image per member.
\<close>

theorem decomps_reference_earlier_members:
  assumes "SemigroupTree_init gens func make_hashable = Some t"
  shows "(\<forall>k left right. k < length (decomps t) \<and> decomps t ! k = Binary left right
            \<longrightarrow> left < k \<and> right < k) \<and>
         (\<exists>out. compute_homomorphism t get_generator compose = Inr out \<and>
                length out = length (members t))"
proof -
  from init_inv[OF assms] obtain seen where inv: "tree_inv make_hashable t seen" by blast
  then have len: "length (decomps t) = length (members t)"
    and leaves: "\<forall>k i. k < length (decomps t) \<longrightarrow> decomps t ! k = Leaf i \<longrightarrow> i < length (generators t)"
    and nodes: "\<forall>k l r. k < length (decomps t) \<longrightarrow> decomps t ! k = Binary l r \<longrightarrow> l < k \<and> r < k"
    by (simp_all add: tree_inv_def)
  from nodes have "\<forall>k l r. k < length (decomps t) \<longrightarrow> decomps t ! k = Binary l r \<longrightarrow>
      l < length ([] :: 'c list) + k \<and> r < length ([] :: 'c list) + k" by simp
  from replay_decomps_ok[OF leaves this, of get_generator compose] len nodes
  show ?thesis by (simp add: compute_homomorphism_def)
qed

theorem decomps_reference_earlier_members_witness:
  "\<exists>t. SemigroupTree_init [4, 4, 2, 1 :: nat] (\<lambda>a b. (a + b) mod 8) (\<lambda>x. x) = Some t \<and>
       (7 < length (decomps t) \<and> decomps t ! 7 = Binary 2 5) \<and> (2::nat) < 7 \<and> (5::nat) < 7 \<and>
       (\<exists>out. compute_homomorphism t (\<lambda>i g. g) (\<lambda>a b. (a + b) mod 8) = Inr out \<and>
              length out = length (members t))"
proof -
  let ?t = "\<lparr>generators = [4, 4, 2, 1 :: nat], generator_indices = [0, 1, 2],
       members = [4, 2, 1, 0, 6, 5, 3, 7],
       decomps = [Leaf 0, Leaf 2, Leaf 3, Binary 0 0, Binary 0 1, Binary 0 2,
                  Binary 2 2, Binary 2 5]\<rparr>"
  note run = init_mod8_example
  have node: "7 < length (decomps ?t) \<and> decomps ?t ! 7 = Binary 2 5" by simp
  from decomps_reference_earlier_members[OF run, of "\<lambda>i g. g" "\<lambda>a b. (a + b) mod 8"] node
  have "(2::nat) < 7 \<and> (5::nat) < 7 \<and>
       (\<exists>out. compute_homomorphism ?t (\<lambda>i g. g) (\<lambda>a b. (a + b) mod 8) = Inr out \<and>
              length out = length (members ?t))" by blast
  with run node show ?thesis by blast
qed

section \<open>No member is stored twice\<close>

text \<open>
  Claim C10. Whatever the input, the canonical forms (the images under
  \<open>make_hashable\<close>) of the elements of the resulting members list are pairwise distinct.
\<close>

theorem members_canonical_forms_distinct:
  assumes "SemigroupTree_init gens func make_hashable = Some t"
  shows "distinct (map make_hashable (members t))"
  using init_inv[OF assms] by (auto simp: tree_inv_def)

theorem members_canonical_forms_distinct_witness:
  "\<exists>t. SemigroupTree_init [4, 4, 2, 1 :: nat] (\<lambda>a b. (a + b) mod 8) (\<lambda>x. x) = Some t \<and>
       members t = [4, 2, 1, 0, 6, 5, 3, 7] \<and> distinct (map (\<lambda>x. x) (members t))"
  using members_canonical_forms_distinct[OF init_mod8_example] init_mod8_example by simp

section \<open>Termination\<close>

text \<open>
  Claim C7. When the closure of the generators under the operation has finitely many
  distinct canonical forms, \<open>__init__\<close> terminates: each \<open>while\<close> loop, although it
  walks a list that grows under it, returns, because every appended member has a canonical
  form not seen before and only finitely many are available.
\<close>

theorem init_terminates:
  assumes "finite (make_hashable ` semigroup_closure func (set gens))"
  shows "\<exists>t. SemigroupTree_init gens func make_hashable = Some t"
proof (cases "gens = []")
  case True
  then show ?thesis by (simp add: SemigroupTree_init_def)
next
  case False
  let ?C = "semigroup_closure func (set gens)"
  let ?t0 = "\<lparr>generators = gens, generator_indices = [], members = [], decomps = []\<rparr>"
  have inv0: "tree_inv make_hashable ?t0 {}" by (simp add: tree_inv_def)
  obtain t1 s1 where leaves: "add_leaf_nodes make_hashable 0 gens ?t0 {} = (t1, s1)"
    by (cases "add_leaf_nodes make_hashable 0 gens ?t0 {}")
  have inv1: "tree_inv make_hashable t1 s1"
    by (rule add_leaf_nodes_inv[OF inv0 _ _ leaves]) simp_all
  have g1: "generators t1 = gens" using add_leaf_nodes_fields[OF leaves] by simp
  from add_leaf_nodes_members[OF leaves] have mem1: "set (members t1) \<subseteq> ?C"
    by (auto intro: semigroup_closure.generator)
  have "\<forall>p \<in> set (zip (generator_indices t1) (generators t1)).
          fst p < length (members t1) \<and> (\<forall>x \<in> ?C. func (snd p) x \<in> ?C)"
  proof
    fix p assume p: "p \<in> set (zip (generator_indices t1) (generators t1))"
    obtain a b where ab: "p = (a, b)" by (cases p)
    with p g1 have "fst p \<in> set (generator_indices t1)" and "snd p \<in> set gens"
      by (auto dest: set_zip_leftD set_zip_rightD)
    with inv1 show "fst p < length (members t1) \<and> (\<forall>x \<in> ?C. func (snd p) x \<in> ?C)"
      by (auto simp: tree_inv_def intro: semigroup_closure.intros)
  qed
  with assms have "\<exists>r. apply_generators func make_hashable
      (zip (generator_indices t1) (generators t1)) t1 s1 = Some r"
    using inv1 mem1 by (rule apply_generators_terminates)
  then obtain r where "apply_generators func make_hashable
      (zip (generator_indices t1) (generators t1)) t1 s1 = Some r" by blast
  with False leaves show ?thesis by (simp add: SemigroupTree_init_def)
qed

theorem init_terminates_witness:
  "finite ((\<lambda>x. x) ` semigroup_closure (\<lambda>a b. (a + b) mod 8) (set [4, 4, 2, 1 :: nat])) \<and>
   (\<exists>t. SemigroupTree_init [4, 4, 2, 1 :: nat] (\<lambda>a b. (a + b) mod 8) (\<lambda>x. x) = Some t)"
proof -
  have fin: "finite ((\<lambda>x. x) ` semigroup_closure (\<lambda>a b. (a + b) mod 8) (set [4, 4, 2, 1 :: nat]))"
    using mod8_closure by (simp add: finite_subset[OF _ finite_lessThan])
  from init_terminates[OF fin] fin show ?thesis by blast
qed


section \<open>Redundant generators\<close>

text \<open>
  Claim C8, as stated, fails where the closure is infinite: with the generator 1 given twice
  and addition of natural numbers, the second occurrence collides with the first, and
  \<open>__init__\<close> never completes.
\<close>

theorem init_duplicate_infinite_closure_counterexample:
  "(\<lambda>x. x) ([1, 1 :: nat] ! 1) = (\<lambda>x. x) ([1, 1 :: nat] ! 0) \<and>
   \<not> (\<exists>t. SemigroupTree_init [1, 1 :: nat] (+) (\<lambda>x. x) = Some t)"
proof -
  let ?t1 = "\<lparr>generators = [1, 1 :: nat], generator_indices = [0], members = [1],
      decomps = [Leaf 0]\<rparr>"
  have "apply_on_left (+) (\<lambda>x. x) 0 (1 :: nat) 0 ?t1 {1} = None"
  proof (rule ccontr)
    assume "apply_on_left (+) (\<lambda>x. x) 0 (1 :: nat) 0 ?t1 {1} \<noteq> None"
    then obtain y where "apply_on_left (+) (\<lambda>x. x) 0 (1 :: nat) 0 ?t1 {1} = Some y" by blast
    from apply_on_left_diverges[OF this] show False by simp
  qed
  then have "SemigroupTree_init [1, 1 :: nat] (+) (\<lambda>x. x) = None"
    by (simp add: SemigroupTree_init_def)
  then show ?thesis by simp
qed

text \<open>
  Claim C8, amended. For every generator list whose closure has finitely many canonical
  forms and which contains an element whose canonical form collides with an earlier
  generator's, \<open>__init__\<close> completes without raising an error; the leaf nodes are tagged, in
  order, with the indices of the first occurrences of the distinct canonical forms, so there
  is exactly one leaf per distinct canonical form; and the index of the duplicate appears in
  no leaf decomposition.
\<close>

theorem duplicate_generators_skipped:
  assumes fin: "finite (make_hashable ` semigroup_closure func (set gens))"
    and dup: "i < j" "j < length gens" "make_hashable (gens ! j) = make_hashable (gens ! i)"
  shows "\<exists>t. SemigroupTree_init gens func make_hashable = Some t \<and>
           leaf_tags (decomps t) =
             [k \<leftarrow> [0..<length gens].
                make_hashable (gens ! k) \<notin> make_hashable ` set (take k gens)] \<and>
           distinct (map (\<lambda>k. make_hashable (gens ! k)) (leaf_tags (decomps t))) \<and>
           (\<lambda>k. make_hashable (gens ! k)) ` set (leaf_tags (decomps t)) = make_hashable ` set gens \<and>
           Leaf j \<notin> set (decomps t)"
proof -
  from init_terminates[OF fin] obtain t where t: "SemigroupTree_init gens func make_hashable = Some t"
    by blast
  note tags = init_leaf_tags[OF t]
  from dup have "gens ! i \<in> set (take j gens)"
    by (metis in_set_conv_nth length_take min_less_iff_conj nth_take order_less_trans)
  with dup(3) have "make_hashable (gens ! j) \<in> make_hashable ` set (take j gens)" by auto
  then have "j \<notin> set (leaf_tags (decomps t))" unfolding tags by simp
  then have "Leaf j \<notin> set (decomps t)" by (simp add: leaf_tags_set)
  with t tags first_occurrences_distinct[of make_hashable gens]
    first_occurrences_cover[of make_hashable gens]
  show ?thesis by simp
qed

theorem duplicate_generators_skipped_witness:
  "finite ((\<lambda>x. x) ` semigroup_closure (\<lambda>a b. (a + b) mod 8) (set [4, 4, 2, 1 :: nat])) \<and>
   (0 :: nat) < 1 \<and> 1 < length [4, 4, 2, 1 :: nat] \<and> [4, 4, 2, 1 :: nat] ! 1 = [4, 4, 2, 1] ! 0 \<and>
   (\<exists>t. SemigroupTree_init [4, 4, 2, 1 :: nat] (\<lambda>a b. (a + b) mod 8) (\<lambda>x. x) = Some t \<and>
        leaf_tags (decomps t) = [0, 2, 3] \<and> Leaf 1 \<notin> set (decomps t))"
proof -
  have fin: "finite ((\<lambda>x. x) ` semigroup_closure (\<lambda>a b. (a + b) mod 8) (set [4, 4, 2, 1 :: nat]))"
    using mod8_closure by (simp add: finite_subset[OF _ finite_lessThan])
  have dup: "(0 :: nat) < 1" "1 < length [4, 4, 2, 1 :: nat]"
    "(\<lambda>x. x) ([4, 4, 2, 1 :: nat] ! 1) = (\<lambda>x. x) ([4, 4, 2, 1] ! 0)" by simp_all
  from duplicate_generators_skipped[OF fin dup]
  obtain t where t: "SemigroupTree_init [4, 4, 2, 1 :: nat] (\<lambda>a b. (a + b) mod 8) (\<lambda>x. x) = Some t"
    and no: "Leaf 1 \<notin> set (decomps t)" by blast
  from t init_mod8_example have "leaf_tags (decomps t) = [0, 2, 3]" by auto
  with fin t no show ?thesis by auto
qed


section \<open>Closure under the generators\<close>

text \<open>
  Claim C1 says that the member list is closed under applying any generator on the left.
  The code does not achieve this. Each generator is applied once to the members known when
  its turn ends; the members found by a later generator are never multiplied by an earlier
  one. For the two reflections of the square the result holds 6 of the 8 elements of the
  group: applying the first generator to the member at position 4 gives the permutation
  3, 2, 1, 0, whose canonical form is that of no member.
\<close>

theorem members_not_closed_under_first_generator:
  "SemigroupTree_init [[0, 3, 2, 1], [1, 0, 3, 2]] compose_perm make_perm_hashable =
     Some \<lparr>generators = [[0, 3, 2, 1], [1, 0, 3, 2]], generator_indices = [0, 1],
       members = [[0, 3, 2, 1], [1, 0, 3, 2], [0, 1, 2, 3], [1, 2, 3, 0],
                  [3, 0, 1, 2], [2, 1, 0, 3]],
       decomps = [Leaf 0, Leaf 1, Binary 0 0, Binary 0 1, Binary 1 0, Binary 1 3]\<rparr> \<and>
   make_perm_hashable (compose_perm [0, 3, 2, 1] [3, 0, 1, 2]) = [3, 2, 1, 0] \<and>
   [3, 2, 1, 0] \<notin> make_perm_hashable `
      set [[0, 3, 2, 1], [1, 0, 3, 2], [0, 1, 2, 3], [1, 2, 3, 0], [3, 0, 1, 2], [2, 1, 0, 3]]"
  using init_square_example by (simp add: compose_perm_def make_perm_hashable_def)

section \<open>Decompositions and their replay\<close>

text \<open>
  Claim C2 says that a binary decomposition \<open>(left, right)\<close> at position \<open>k\<close> satisfies
  \<open>members[k] = func(members[left], members[right])\<close>, so that replaying the decompositions
  with the identity on generators gives back the members. The code breaks this after a
  redundant generator: \<open>zip(self.generator_indices, self.generators)\<close> pairs the node index
  of the n-th retained generator with the n-th generator of the input list, and the two
  differ once a generator has been skipped. With generators 4, 4, 2, 1 modulo 8 the member
  3 = 2 + 1 at position 6 is recorded as \<open>(2, 2)\<close>, and the member at position 2 is 1: the
  replay computes 1 + 1 = 2 there.
\<close>

theorem decomposition_wrong_after_redundant_generator:
  "SemigroupTree_init [4, 4, 2, 1 :: nat] (\<lambda>a b. (a + b) mod 8) (\<lambda>x. x) =
     Some \<lparr>generators = [4, 4, 2, 1], generator_indices = [0, 1, 2],
       members = [4, 2, 1, 0, 6, 5, 3, 7],
       decomps = [Leaf 0, Leaf 2, Leaf 3, Binary 0 0, Binary 0 1, Binary 0 2,
                  Binary 2 2, Binary 2 5]\<rparr> \<and>
   [4, 2, 1, 0, 6, 5, 3, 7 :: nat] ! 6 = 3 \<and>
   ([4, 2, 1, 0, 6, 5, 3, 7 :: nat] ! 2 + [4, 2, 1, 0, 6, 5, 3, 7] ! 2) mod 8 = 2 \<and>
   compute_homomorphism
     \<lparr>generators = [4, 4, 2, 1 :: nat], generator_indices = [0, 1, 2],
       members = [4, 2, 1, 0, 6, 5, 3, 7],
       decomps = [Leaf 0, Leaf 2, Leaf 3, Binary 0 0, Binary 0 1, Binary 0 2,
                  Binary 2 2, Binary 2 5]\<rparr>
     (\<lambda>i g. g) (\<lambda>a b. (a + b) mod 8) = Inr [4, 2, 1, 0, 6, 5, 2, 6]"
  using init_mod8_example by (simp add: compute_homomorphism_def)
end
